theory Spec2Isabelle
  imports Main
begin

section \<open>The environment of \<open>spf.net.scripts\<close>\<close>

text \<open>
  The module \<open>src/net/scripts.js\<close> works on one shared document. Its functions are
  embedded as functions on an explicit state:
  \<^item> the elements created so far live in a heap, addressed by their creation number;
    an element knows whether it is still attached (\<open>parentNode\<close> is not null);
  \<^item> \<open>spf.pubsub\<close> is a table from a channel to the callbacks subscribed to it;
  \<^item> \<open>setTimeout(f, 0)\<close> appends a task to a queue, which the event loop runs later;
  \<^item> a log records what an outside observer sees: a script element given a source and
    inserted (the browser starts a fetch), a text evaluated, a user callback invoked, a
    fetch-only request made in the prefetch frame.
\<close>

type_synonym ref = nat

text \<open>
  Callbacks are first-class functions in the source. Two kinds reach this module: functions
  of the application (opaque here: invoking one is recorded in the log, under its label),
  and the closure \<open>getNextScript\<close> that \<open>execute\<close> creates (identified by the number
  of its closure environment).
\<close>

datatype cb = User nat | GetNextScript nat

text \<open>
  The anonymous function that \<open>load\<close> passes to \<open>load_\<close> closes over \<open>el\<close>,
  \<open>id\<close> and \<open>scriptElsToRemove\<close>.
\<close>

datatype fn_closure = Fn (fn_el: ref) (fn_id: string) (fn_scriptElsToRemove: "ref list")

record element =
  el_id :: string
  className :: string
  src :: string
  loaded :: bool
  attached :: bool
  handlers :: "fn_closure option"

text \<open>
  \<open>handlers\<close> is \<open>Some fn\<close> for an element wired by \<open>load_\<close> (both \<open>onload\<close> and
  \<open>onreadystatechange\<close> are set, around the same \<open>fn\<close>), and \<open>None\<close> for any other
  script element of the page. \<open>loaded\<close> is the data attribute \<open>loaded\<close> read and written
  through \<open>spf.dom.dataset\<close>.
\<close>

record item =
  url :: string
  text' :: string
  name :: string

record ParseResult =
  original :: string
  parsed :: string
  queue :: "item list"

text \<open>
  The closure environment of one call of \<open>execute\<close>: the variables \<open>result\<close>,
  \<open>opt_callback\<close> and \<open>index\<close> that \<open>getNextScript\<close> reads and writes.
\<close>

record frame =
  f_result :: ParseResult
  f_opt_callback :: "nat option"
  f_index :: int

datatype task = TFn fn_closure | TPrefetch string string

datatype event =
    Fetch string
  | Evaluated string
  | Called nat
  | PrefetchScript string
  | PrefetchObject string

record state =
  heap :: "element list"
  pubsub :: "string \<Rightarrow> cb list"
  timers :: "task list"
  frames :: "frame list"
  iframe :: "string list option"
  execScript :: bool
  IS_IE :: bool
  log :: "event list"

text \<open>
  Every insertion of this module is \<open>targetEl.insertBefore(el, targetEl.firstChild)\<close>, so
  the document order of the script elements is the reverse of their creation order.
\<close>

definition document :: "state \<Rightarrow> ref list" where
  "document s = rev (filter (\<lambda>r. attached (heap s ! r)) [0..<length (heap s)])"

definition getElementById :: "string \<Rightarrow> state \<Rightarrow> ref option" where
  "getElementById i s = find (\<lambda>r. el_id (heap s ! r) = i) (document s)"

text \<open>
  Modelled from the spec: \<open>spf.dom.query\<close> is not part of the sources. The spec lists
  ``query elements by a group tag'' among the consumed capabilities; \<open>query cls\<close> is the
  list of the attached script elements whose class is \<open>cls\<close>, in document order.
\<close>

definition query :: "string \<Rightarrow> state \<Rightarrow> ref list" where
  "query cls s = filter (\<lambda>r. className (heap s ! r) = cls) (document s)"

text \<open>
  Modelled from the spec: \<open>spf.pubsub\<close> is not part of the sources. The spec gives
  \<open>subscribe(channel, fn)\<close>, \<open>publish(channel)\<close> and \<open>clear(channel)\<close> ``with
  registration-order delivery'': \<open>subscribe\<close> appends, \<open>clear\<close> empties the channel, and
  \<open>publish\<close> (below, after the callbacks) calls the callbacks subscribed at that moment,
  first subscribed first.
\<close>

definition subscribe :: "string \<Rightarrow> cb \<Rightarrow> state \<Rightarrow> state" where
  "subscribe i c s = s\<lparr>pubsub := (pubsub s)(i := pubsub s i @ [c])\<rparr>"

definition clear :: "string \<Rightarrow> state \<Rightarrow> state" where
  "clear i s = s\<lparr>pubsub := (pubsub s)(i := [])\<rparr>"

definition ID_PREFIX :: string where
  "ID_PREFIX = ''js-''"

text \<open>
  \<open>spf.string.hashCode\<close> is not part of the sources either. It is a parameter \<open>h\<close> of
  every function that derives an identifier: \<open>h url\<close> is the hash of \<open>url\<close> as the
  string that \<open>+\<close> concatenates to the prefix. Nothing is assumed about it: two locators
  may collide.
\<close>

type_synonym hashCode = "string \<Rightarrow> string"

definition ident :: "hashCode \<Rightarrow> string \<Rightarrow> string" where
  "ident h u = ID_PREFIX @ h u"

section \<open>Loading\<close>

text \<open>
  \<open>load_\<close>: create the script element, wire both handlers around \<open>fn\<close>, set the source
  and insert the element first in the document. The closure \<open>fn\<close> is built by the caller
  around the element that \<open>load_\<close> returns, so the model builds it here from the captured
  \<open>scriptElsToRemove\<close>.
\<close>

definition load' :: "string \<Rightarrow> string \<Rightarrow> string \<Rightarrow> ref list \<Rightarrow> state \<Rightarrow> ref \<times> state" where
  "load' u i cls scriptElsToRemove s =
     (let scriptEl = length (heap s) in
      (scriptEl,
       s\<lparr>heap := heap s @
            [\<lparr>el_id = i, className = cls, src = u, loaded = False, attached = True,
              handlers = Some (Fn scriptEl i scriptElsToRemove)\<rparr>],
         log := log s @ [Fetch u]\<rparr>))"

text \<open>
  \<open>eval\<close> either calls \<open>window.execScript\<close> or inserts an anonymous script element
  holding the text; both evaluate the text. The element has no id and no class.
\<close>

definition eval_text :: "string \<Rightarrow> state \<Rightarrow> state" where
  "eval_text t s =
     (if execScript s then s\<lparr>log := log s @ [Evaluated t]\<rparr>
      else s\<lparr>heap := heap s @
                [\<lparr>el_id = [], className = [], src = [], loaded = False, attached = True,
                  handlers = None\<rparr>],
             log := log s @ [Evaluated t]\<rparr>)"

definition set_index :: "nat \<Rightarrow> int \<Rightarrow> state \<Rightarrow> state" where
  "set_index f i s = s\<lparr>frames := (frames s)[f := (frames s ! f)\<lparr>f_index := i\<rparr>]\<rparr>"

text \<open>The number of items a closure environment has still to visit (for termination).\<close>

definition remaining :: "nat \<Rightarrow> state \<Rightarrow> nat" where
  "remaining f s =
     (if f < length (frames s)
      then nat (int (length (queue (f_result (frames s ! f)))) - f_index (frames s ! f))
      else 0)"

function call_cb :: "hashCode \<Rightarrow> cb \<Rightarrow> state \<Rightarrow> state"
  and load :: "hashCode \<Rightarrow> string \<Rightarrow> cb option \<Rightarrow> string option \<Rightarrow> state \<Rightarrow> ref \<times> state"
  and eval :: "hashCode \<Rightarrow> string \<Rightarrow> cb option \<Rightarrow> state \<Rightarrow> state"
  and getNextScript :: "hashCode \<Rightarrow> nat \<Rightarrow> state \<Rightarrow> state"
where
  "call_cb h (User k) s = s\<lparr>log := log s @ [Called k]\<rparr>"
| "call_cb h (GetNextScript f) s = getNextScript h f s"
| "load h u opt_callback opt_name s =
     (let i = ident h u;
          cls = (case opt_name of Some n \<Rightarrow> n | None \<Rightarrow> [])
      in case getElementById i s of
           Some scriptEl \<Rightarrow>
             if loaded (heap s ! scriptEl)
             then (case opt_callback of
                     Some c \<Rightarrow> (scriptEl, call_cb h c s)
                   | None \<Rightarrow> (scriptEl, s))
             else (case opt_callback of
                     Some c \<Rightarrow> (scriptEl, subscribe i c s)
                   | None \<Rightarrow> (scriptEl, s))
         | None \<Rightarrow>
             (let s1 = (case opt_callback of Some c \<Rightarrow> subscribe i c s | None \<Rightarrow> s);
                  scriptElsToRemove = (if cls \<noteq> [] then query cls s1 else [])
              in load' u i cls scriptElsToRemove s1))"
| "eval h t opt_callback s =
     (let s1 = eval_text t s
      in case opt_callback of Some c \<Rightarrow> call_cb h c s1 | None \<Rightarrow> s1)"
| "getNextScript h f s =
     (if f < length (frames s) then
        (let fr = frames s ! f;
             i = f_index fr + 1;
             s1 = set_index f i s
         in if i < int (length (queue (f_result fr))) then
              (let it = queue (f_result fr) ! nat i
               in if url it \<noteq> [] then
                    snd (load h (url it) (Some (GetNextScript f)) (Some (name it)) s1)
                  else if text' it \<noteq> [] then
                    eval h (text' it) (Some (GetNextScript f)) s1
                  else getNextScript h f s1)
            else (case f_opt_callback fr of
                    Some k \<Rightarrow> call_cb h (User k) s1
                  | None \<Rightarrow> s1))
      else s)"
  by pat_completeness auto
termination
  by (relation "measure (\<lambda>x. case x of
        Inl (Inl (h, c, s)) \<Rightarrow>
          (case c of User k \<Rightarrow> 0 | GetNextScript f \<Rightarrow> 3 * remaining f s + 2)
      | Inl (Inr (h, u, oc, on, s)) \<Rightarrow>
          (case oc of Some (GetNextScript f) \<Rightarrow> 3 * remaining f s + 3
                    | Some (User k) \<Rightarrow> 1 | None \<Rightarrow> 0)
      | Inr (Inl (h, t, oc, s)) \<Rightarrow>
          (case oc of Some (GetNextScript f) \<Rightarrow> 3 * remaining f s + 3
                    | Some (User k) \<Rightarrow> 1 | None \<Rightarrow> 0)
      | Inr (Inr (h, f, s)) \<Rightarrow> 3 * remaining f s + 1)")
     (auto simp: remaining_def set_index_def eval_text_def split: cb.splits)

declare load.simps [simp del] eval.simps [simp del] getNextScript.simps [simp del]

definition publish :: "hashCode \<Rightarrow> string \<Rightarrow> state \<Rightarrow> state" where
  "publish h i s = fold (call_cb h) (pubsub s i) s"

text \<open>
  \<open>unload_\<close> reads \<open>scriptEls[i].parentNode.removeChild\<close>: on an element that is no
  longer attached, \<open>parentNode\<close> is null and the property access throws a TypeError. The
  exception leaves the loop; what was done before it stays done.
\<close>

datatype outcome = Ok state | TypeError state

fun state_of :: "outcome \<Rightarrow> state" where
  "state_of (Ok s) = s"
| "state_of (TypeError s) = s"

definition removeChild :: "ref \<Rightarrow> state \<Rightarrow> state" where
  "removeChild el s = s\<lparr>heap := (heap s)[el := (heap s ! el)\<lparr>attached := False\<rparr>]\<rparr>"

fun unload' :: "ref list \<Rightarrow> state \<Rightarrow> outcome" where
  "unload' [] s = Ok s"
| "unload' (el # scriptEls) s =
     (let s1 = clear (el_id (heap s ! el)) s
      in if attached (heap s1 ! el) then unload' scriptEls (removeChild el s1)
         else TypeError s1)"

definition unload :: "hashCode \<Rightarrow> string \<Rightarrow> state \<Rightarrow> outcome" where
  "unload h u s =
     (let i = ident h u
      in case getElementById i s of
           Some scriptEl \<Rightarrow> unload' [scriptEl] s
         | None \<Rightarrow> Ok s)"

text \<open>The body of the closure \<open>fn\<close> that \<open>load\<close> builds.\<close>

definition set_loaded :: "ref \<Rightarrow> state \<Rightarrow> state" where
  "set_loaded el s = s\<lparr>heap := (heap s)[el := (heap s ! el)\<lparr>loaded := True\<rparr>]\<rparr>"

fun load_fn :: "hashCode \<Rightarrow> fn_closure \<Rightarrow> state \<Rightarrow> outcome" where
  "load_fn h (Fn el i scriptElsToRemove) s =
     (if \<not> loaded (heap s ! el) then
        (case unload' scriptElsToRemove (set_loaded el s) of
           TypeError s2 \<Rightarrow> TypeError s2
         | Ok s2 \<Rightarrow> Ok (clear i (publish h i s2)))
      else Ok s)"

section \<open>Events and the event loop\<close>

text \<open>
  The handlers that \<open>load_\<close> sets: \<open>onload\<close> defers \<open>fn\<close> to the next tick;
  \<open>onreadystatechange\<close> calls \<open>onload\<close> when the ready state is \<open>loaded\<close> or
  \<open>complete\<close>. An element that \<open>load_\<close> did not wire has no handler.
\<close>

definition onload :: "ref \<Rightarrow> state \<Rightarrow> state" where
  "onload el s =
     (if el < length (heap s) then
        (case handlers (heap s ! el) of
           Some fn \<Rightarrow> s\<lparr>timers := timers s @ [TFn fn]\<rparr>
         | None \<Rightarrow> s)
      else s)"

definition onreadystatechange :: "ref \<Rightarrow> string \<Rightarrow> state \<Rightarrow> state" where
  "onreadystatechange el readyState s =
     (if readyState = ''loaded'' \<or> readyState = ''complete'' then onload el s else s)"

text \<open>
  \<open>prefetch_\<close> appends a placeholder object with the identifier to the body of the
  prefetch frame's document; the request goes out through a detached script element on
  IE and through the object's \<open>data\<close> elsewhere. \<open>iframe\<close> holds the identifiers of the
  frame's elements once \<open>spf.dom.createIframe\<close> has created it.
\<close>

definition prefetch' :: "string \<Rightarrow> string \<Rightarrow> state \<Rightarrow> state" where
  "prefetch' u i s =
     s\<lparr>iframe := Some ((case iframe s of Some ids \<Rightarrow> ids | None \<Rightarrow> []) @ [i]),
       log := log s @ [if IS_IE s then PrefetchScript u else PrefetchObject u]\<rparr>"

definition prefetch :: "hashCode \<Rightarrow> string \<Rightarrow> state \<Rightarrow> state" where
  "prefetch h u s =
     (let i = ident h u
      in case getElementById i s of
           Some scriptEl \<Rightarrow> s
         | None \<Rightarrow>
             (case iframe s of
                None \<Rightarrow> s\<lparr>iframe := Some [], timers := timers s @ [TPrefetch u i]\<rparr>
              | Some ids \<Rightarrow>
                  if i \<in> set ids then s
                  else s\<lparr>timers := timers s @ [TPrefetch u i]\<rparr>))"

fun run_task :: "hashCode \<Rightarrow> task \<Rightarrow> state \<Rightarrow> outcome" where
  "run_task h (TFn fn) s = load_fn h fn s"
| "run_task h (TPrefetch u i) s = Ok (prefetch' u i s)"

text \<open>
  One turn of the event loop runs the oldest task. An exception ends the task; the loop
  goes on from the state the task left.
\<close>

definition tick :: "hashCode \<Rightarrow> state \<Rightarrow> state" where
  "tick h s =
     (case timers s of
        [] \<Rightarrow> s
      | t # ts \<Rightarrow> state_of (run_task h t (s\<lparr>timers := ts\<rparr>)))"

section \<open>Executing a parsed queue\<close>

definition execute :: "hashCode \<Rightarrow> ParseResult \<Rightarrow> nat option \<Rightarrow> state \<Rightarrow> state" where
  "execute h res opt_callback s =
     (if length (queue res) \<le> 0 then
        (case opt_callback of Some k \<Rightarrow> call_cb h (User k) s | None \<Rightarrow> s)
      else
        (let f = length (frames s);
             s1 = s\<lparr>frames := frames s @
                     [\<lparr>f_result = res, f_opt_callback = opt_callback, f_index = - 1\<rparr>]\<rparr>
         in getNextScript h f s1))"

section \<open>Parsing\<close>

text \<open>
  Strings are lists of 8-bit characters. The three regular expressions of the module are
  embedded as backtracking matchers that try the alternatives in the order the
  quantifiers prescribe: a lazy \<open>*?\<close> tries the shorter repetition first, a greedy \<open>+\<close>
  the longer one.

  With the flag \<open>i\<close> two characters match when their canonical forms agree; for the
  ASCII letters of \<open><script\<close> and \<open></script>\<close> that is equality up to ASCII case.
\<close>

definition canonicalize :: "char \<Rightarrow> char" where
  "canonicalize c =
     (let n = of_char c :: nat in if 97 \<le> n \<and> n \<le> 122 then char_of (n - 32) else c)"

fun ci_prefix :: "string \<Rightarrow> string \<Rightarrow> bool" where
  "ci_prefix [] s = True"
| "ci_prefix (p # ps) [] = False"
| "ci_prefix (p # ps) (c # cs) = (canonicalize p = canonicalize c \<and> ci_prefix ps cs)"

text \<open>
  \<open>SCRIPT_TAG_REGEXP = /<script([\s\S]*?)>([\s\S]*?)<\/script>/ig\<close>.
  \<open>match_text\<close> is \<open>([\s\S]*?)<\/script>\<close>, \<open>match_attr\<close> is
  \<open>([\s\S]*?)>([\s\S]*?)<\/script>\<close>; both carry the characters captured so far and
  return the captures and the rest of the string after the match.
\<close>

fun match_text :: "string \<Rightarrow> string \<Rightarrow> (string \<times> string) option" where
  "match_text acc [] = None"
| "match_text acc (c # cs) =
     (if ci_prefix ''</script>'' (c # cs) then Some (acc, drop 9 (c # cs))
      else match_text (acc @ [c]) cs)"

fun match_attr :: "string \<Rightarrow> string \<Rightarrow> (string \<times> string \<times> string) option" where
  "match_attr acc [] = None"
| "match_attr acc (c # cs) =
     (case (if c = CHR ''>'' then match_text [] cs else None) of
        Some (t, rest) \<Rightarrow> Some (acc, t, rest)
      | None \<Rightarrow> match_attr (acc @ [c]) cs)"

definition SCRIPT_TAG_REGEXP :: "string \<Rightarrow> (string \<times> string \<times> string) option" where
  "SCRIPT_TAG_REGEXP s =
     (if ci_prefix ''<script'' s then match_attr [] (drop 7 s) else None)"

text \<open>
  \<open>SRC_ATTR_REGEXP = /src="([\S]+)"/\<close> and \<open>CLASS_ATTR_REGEXP = /class="([\S]+)"/\<close>
  have one shape: a literal, a greedy run of non-space characters, a closing quote. The
  run and the quote lie inside the longest stretch of non-space characters after the
  literal; the greedy capture ends at the last quote of that stretch that leaves it
  non-empty.
\<close>

definition whitespace :: "char \<Rightarrow> bool" where
  "whitespace c = (of_char c \<in> {9, 10, 11, 12, 13, 32, 160 :: nat})"

definition quote :: char where
  "quote = CHR 0x22"

definition match_value :: "string \<Rightarrow> string \<Rightarrow> string option" where
  "match_value lit s =
     (if take (length lit) s = lit then
        (let run = takeWhile (\<lambda>c. \<not> whitespace c) (drop (length lit) s)
         in case find (\<lambda>k. run ! k = quote) (rev [1..<length run]) of
              Some k \<Rightarrow> Some (take k run)
            | None \<Rightarrow> None)
      else None)"

text \<open>\<open>attr.match(re)\<close>: the leftmost match; the result is the capture.\<close>

fun match_first :: "string \<Rightarrow> string \<Rightarrow> string option" where
  "match_first lit [] = None"
| "match_first lit (c # cs) =
     (case match_value lit (c # cs) of
        Some v \<Rightarrow> Some v
      | None \<Rightarrow> match_first lit cs)"

definition SRC_ATTR_REGEXP :: "string \<Rightarrow> string option" where
  "SRC_ATTR_REGEXP = match_first (''src='' @ [quote])"

definition CLASS_ATTR_REGEXP :: "string \<Rightarrow> string option" where
  "CLASS_ATTR_REGEXP = match_first (''class='' @ [quote])"

text \<open>The function that \<open>parse\<close> passes to \<open>replace\<close>: the queue item of one match.\<close>

definition parse_item :: "string \<Rightarrow> string \<Rightarrow> item" where
  "parse_item attr t =
     \<lparr>url = (case SRC_ATTR_REGEXP attr of Some v \<Rightarrow> v | None \<Rightarrow> []),
      text' = t,
      name = (case CLASS_ATTR_REGEXP attr of Some v \<Rightarrow> v | None \<Rightarrow> [])\<rparr>"

text \<open>
  \<open>html.replace(SCRIPT_TAG_REGEXP, f)\<close> with the flag \<open>g\<close>: scan from the left; at a
  match, push the item, drop the matched characters and go on after them; elsewhere copy
  the character. The first argument counts the characters of the last match still to be
  dropped. The result is the items pushed and the string returned.
\<close>

fun replace_scripts :: "nat \<Rightarrow> string \<Rightarrow> item list \<times> string" where
  "replace_scripts n [] = ([], [])"
| "replace_scripts (Suc n) (c # cs) = replace_scripts n cs"
| "replace_scripts 0 (c # cs) =
     (case SCRIPT_TAG_REGEXP (c # cs) of
        Some (attr, t, rest) \<Rightarrow>
          (let (q, out) = replace_scripts (length cs - length rest) cs
           in (parse_item attr t # q, out))
      | None \<Rightarrow>
          (let (q, out) = replace_scripts 0 cs in (q, c # out)))"

definition new_ParseResult :: ParseResult where
  "new_ParseResult = \<lparr>original = [], parsed = [], queue = []\<rparr>"

text \<open>An absent argument (\<open>undefined\<close> or \<open>null\<close>) is \<open>None\<close>.\<close>

definition parse :: "string option \<Rightarrow> ParseResult" where
  "parse html =
     (case html of
        None \<Rightarrow> new_ParseResult
      | Some s \<Rightarrow>
          if s = [] then new_ParseResult
          else (let (q, out) = replace_scripts 0 s
                in \<lparr>original = s, parsed = out, queue = q\<rparr>))"

section \<open>Relations between states\<close>

text \<open>
  \<open>grows s s'\<close>: from \<open>s\<close> to \<open>s'\<close> elements were created and nothing else happened to
  the heap; the task queue, the prefetch frame and the environment flags are the same.
  That is all that invoking a callback can do to them.
\<close>

definition grows :: "state \<Rightarrow> state \<Rightarrow> bool" where
  "grows s s' \<longleftrightarrow>
     (\<exists>xs. heap s' = heap s @ xs) \<and> timers s' = timers s \<and> iframe s' = iframe s \<and>
     execScript s' = execScript s \<and> IS_IE s' = IS_IE s"

text \<open>
  \<open>shrinks s s'\<close>: from \<open>s\<close> to \<open>s'\<close> elements were detached and channels cleared, and
  nothing else happened. That is all that \<open>unload_\<close> can do, whether it returns or throws.
\<close>

definition same_but_attached :: "element \<Rightarrow> element \<Rightarrow> bool" where
  "same_but_attached e e' \<longleftrightarrow>
     el_id e' = el_id e \<and> className e' = className e \<and> src e' = src e \<and>
     loaded e' = loaded e \<and> handlers e' = handlers e \<and> (attached e' \<longrightarrow> attached e)"

definition shrinks :: "state \<Rightarrow> state \<Rightarrow> bool" where
  "shrinks s s' \<longleftrightarrow>
     length (heap s') = length (heap s) \<and>
     (\<forall>r < length (heap s). same_but_attached (heap s ! r) (heap s' ! r)) \<and>
     (\<forall>i. pubsub s' i = pubsub s i \<or> pubsub s' i = []) \<and>
     timers s' = timers s \<and> frames s' = frames s \<and> iframe s' = iframe s \<and>
     execScript s' = execScript s \<and> IS_IE s' = IS_IE s \<and> log s' = log s"

text \<open>
  The completion signals that the environment may raise on a script element, and the
  handler each one reaches. A signal is effective when it gets as far as \<open>setTimeout\<close>.
\<close>

datatype signal = Load | ReadyStateChange string

fun deliver :: "signal \<Rightarrow> ref \<Rightarrow> state \<Rightarrow> state" where
  "deliver Load el s = onload el s"
| "deliver (ReadyStateChange readyState) el s = onreadystatechange el readyState s"

fun effective :: "signal \<Rightarrow> bool" where
  "effective Load = True"
| "effective (ReadyStateChange readyState) = (readyState = ''loaded'' \<or> readyState = ''complete'')"

text \<open>The number of loads of a locator started in the primary document so far.\<close>

definition fetches :: "string \<Rightarrow> state \<Rightarrow> nat" where
  "fetches u s = count_list (log s) (Fetch u)"

section \<open>Concrete inputs\<close>

text \<open>
  An empty page, and a hash without collisions (the locator itself), for the runs that
  the theorems below are instantiated on.
\<close>

definition init :: state where
  "init = \<lparr>heap = [], pubsub = (\<lambda>i. []), timers = [], frames = [], iframe = None,
           execScript = False, IS_IE = False, log = []\<rparr>"

definition h0 :: hashCode where
  "h0 u = u"

section \<open>The parser on the documented example\<close>

text \<open>
  C9. \<open>parse\<close> of \<open><script src="a.js"></script>rest\<close> returns a result whose queue is
  the single item with url \<open>a.js\<close> (no text, no name), whose stripped markup is
  \<open>rest\<close> and whose original markup is the input, character for character; and \<open>parse\<close>
  of an absent or empty input returns the empty result.
\<close>

theorem parse_example:
  "parse (Some (''<script src='' @ [quote] @ ''a.js'' @ [quote] @ ''></script>rest'')) =
     \<lparr>original = ''<script src='' @ [quote] @ ''a.js'' @ [quote] @ ''></script>rest'',
      parsed = ''rest'',
      queue = [\<lparr>url = ''a.js'', text' = [], name = []\<rparr>]\<rparr>
   \<and> parse None = \<lparr>original = [], parsed = [], queue = []\<rparr>
   \<and> parse (Some []) = \<lparr>original = [], parsed = [], queue = []\<rparr>"
  by code_simp

section \<open>The document\<close>

lemma document_append:
  "document (s\<lparr>heap := heap s @ [e]\<rparr>) =
     (if attached e then [length (heap s)] else []) @ document s"
  unfolding document_def by (auto simp: nth_append intro!: filter_cong)

lemma document_attached:
  "r \<in> set (document s) \<longleftrightarrow> r < length (heap s) \<and> attached (heap s ! r)"
  by (auto simp: document_def)

lemma distinct_document: "distinct (document s)"
  by (simp add: document_def)

lemma getElementById_Some:
  "getElementById i s = Some el \<Longrightarrow>
     el < length (heap s) \<and> attached (heap s ! el) \<and> el_id (heap s ! el) = i"
  by (auto simp: getElementById_def find_Some_iff document_attached dest: nth_mem)

lemma getElementById_None:
  "getElementById i s = None \<longleftrightarrow>
     (\<forall>r < length (heap s). attached (heap s ! r) \<longrightarrow> el_id (heap s ! r) \<noteq> i)"
  by (auto simp: getElementById_def find_None_iff document_attached)

section \<open>What invoking a callback leaves alone\<close>

lemma grows_refl [simp]: "grows s s"
  by (simp add: grows_def)

lemma grows_trans: "grows s s' \<Longrightarrow> grows s' s'' \<Longrightarrow> grows s s''"
  by (auto simp: grows_def)

lemma grows_set_index [simp]: "grows (set_index f k s) s' = grows s s'"
  by (simp add: grows_def set_index_def)

lemma grows_set_index_post [simp]: "grows s (set_index f k s') = grows s s'"
  by (simp add: grows_def set_index_def)

lemma grows_log [simp]: "grows s (s'\<lparr>log := l\<rparr>) = grows s s'"
  by (simp add: grows_def)

lemma grows_subscribe [simp]: "grows (subscribe i c s) s' = grows s s'"
  by (simp add: grows_def subscribe_def)

lemma grows_subscribe_post [simp]: "grows s (subscribe i c s') = grows s s'"
  by (simp add: grows_def subscribe_def)

lemma grows_eval_text: "grows (eval_text t s) s' \<Longrightarrow> grows s s'"
  by (auto simp: grows_def eval_text_def split: if_splits)

lemma grows_eval_text_self [simp]: "grows s (eval_text t s)"
  by (simp add: grows_def eval_text_def)

lemma grows_load' [simp]: "grows s s' \<Longrightarrow> grows s (snd (load' u i cls rs s'))"
  by (auto simp: grows_def load'_def Let_def)

lemma grows_all:
  "grows s (call_cb h c s)"
  "grows s (snd (load h u oc on s))"
  "grows s (eval h t oc s)"
  "grows s (getNextScript h f s)"
proof (induct h c s and h u oc on s and h t oc s and h f s
       rule: call_cb_load_eval_getNextScript.induct)
  case (1 h k s)
  show ?case by simp
next
  case (2 h f s)
  then show ?case by simp
next
  case (3 h u opt_callback opt_name s)
  show ?case
    by (subst load.simps) (auto simp: Let_def split: option.splits intro: 3)
next
  case (4 h t opt_callback s)
  show ?case
    by (subst eval.simps)
       (auto simp: Let_def split: option.splits intro: grows_eval_text 4)
next
  case (5 h f s)
  show ?case
    by (subst getNextScript.simps) (use 5 in \<open>auto simp: Let_def split: option.splits\<close>)
qed

section \<open>Unloading\<close>

lemma shrinks_refl [simp]: "shrinks s s"
  by (simp add: shrinks_def same_but_attached_def)

lemma shrinks_clear: "shrinks s s' \<Longrightarrow> shrinks s (clear i s')"
  by (auto simp: shrinks_def clear_def)

lemma same_but_attached_update:
  assumes "same_but_attached e (xs ! r)"
  shows "same_but_attached e (xs[el := (xs ! el)\<lparr>attached := False\<rparr>] ! r)"
proof (cases "el < length xs")
  case True
  with assms show ?thesis
    by (cases "el = r") (simp_all add: same_but_attached_def)
next
  case False
  then have "xs[el := (xs ! el)\<lparr>attached := False\<rparr>] = xs"
    by (intro list_update_beyond) simp
  with assms show ?thesis by simp
qed

lemma shrinks_removeChild: "shrinks s s' \<Longrightarrow> shrinks s (removeChild el s')"
  unfolding shrinks_def removeChild_def by (simp add: same_but_attached_update)

lemma shrinks_unload': "shrinks s0 s \<Longrightarrow> shrinks s0 (state_of (unload' rs s))"
proof (induction rs arbitrary: s)
  case Nil
  then show ?case by simp
next
  case (Cons r rs)
  show ?case
    by (auto simp: Let_def intro!: Cons.IH shrinks_clear shrinks_removeChild Cons.prems)
qed


lemma heap_clear [simp]: "heap (clear i s) = heap s"
  by (simp add: clear_def)

lemma unload'_attached:
  assumes "distinct rs" and "\<forall>r\<in>set rs. r < length (heap s) \<and> attached (heap s ! r)"
  shows "\<exists>s'. unload' rs s = Ok s' \<and> shrinks s s' \<and>
           (\<forall>r<length (heap s). attached (heap s' ! r) \<longleftrightarrow> attached (heap s ! r) \<and> r \<notin> set rs) \<and>
           (\<forall>i. pubsub s' i = (if i \<in> (\<lambda>r. el_id (heap s ! r)) ` set rs then [] else pubsub s i))"
  using assms
proof (induction rs arbitrary: s)
  case Nil
  then show ?case by simp
next
  case (Cons r rs)
  let ?s1 = "clear (el_id (heap s ! r)) s"
  let ?s2 = "removeChild r ?s1"
  from Cons.prems have r: "r < length (heap s)" "attached (heap s ! r)" "r \<notin> set rs" "distinct rs"
    by auto
  have heap2: "heap ?s2 = (heap s)[r := (heap s ! r)\<lparr>attached := False\<rparr>]"
    by (simp add: removeChild_def)
  have "\<forall>x\<in>set rs. x < length (heap ?s2) \<and> attached (heap ?s2 ! x)"
    using Cons.prems r by (auto simp: heap2 nth_list_update)
  from Cons.IH[OF r(4) this] obtain s' where s':
    "unload' rs ?s2 = Ok s'" "shrinks ?s2 s'"
    "\<forall>x<length (heap ?s2). attached (heap s' ! x) \<longleftrightarrow> attached (heap ?s2 ! x) \<and> x \<notin> set rs"
    "\<forall>i. pubsub s' i = (if i \<in> (\<lambda>x. el_id (heap ?s2 ! x)) ` set rs then [] else pubsub ?s2 i)"
    by blast
  have eq: "unload' (r # rs) s = Ok s'"
    using r s'(1) by (simp add: Let_def)
  have sh: "shrinks s s'"
    using shrinks_unload'[of s ?s2 rs] s'(1)
    by (simp add: shrinks_clear shrinks_removeChild)
  have ids: "\<And>x. x \<in> set rs \<Longrightarrow> el_id (heap ?s2 ! x) = el_id (heap s ! x)"
    using r Cons.prems by (auto simp: heap2 nth_list_update)
  have att: "\<forall>x<length (heap s). attached (heap s' ! x) \<longleftrightarrow> attached (heap s ! x) \<and> x \<notin> set (r # rs)"
    using s'(3) r by (auto simp: heap2 nth_list_update)
  have ps: "\<forall>i. pubsub s' i = (if i \<in> (\<lambda>x. el_id (heap s ! x)) ` set (r # rs) then [] else pubsub s i)"
  proof
    fix i
    have "(i \<in> (\<lambda>x. el_id (heap ?s2 ! x)) ` set rs) = (i \<in> (\<lambda>x. el_id (heap s ! x)) ` set rs)"
      using ids by (auto simp: image_iff)
    then show "pubsub s' i = (if i \<in> (\<lambda>x. el_id (heap s ! x)) ` set (r # rs) then [] else pubsub s i)"
      using s'(4) by (auto simp: removeChild_def clear_def)
  qed
  show ?case using eq sh att ps by blast
qed


lemmas eval_simps = load.simps eval.simps getNextScript.simps ident_def ID_PREFIX_def
  getElementById_def document_def query_def subscribe_def clear_def load'_def eval_text_def
  set_index_def publish_def removeChild_def set_loaded_def unload_def onload_def
  onreadystatechange_def prefetch'_def prefetch_def tick_def execute_def Let_def init_def h0_def


lemma grows_fold: "grows s (fold (call_cb h) cs s)"
proof (induction cs arbitrary: s)
  case Nil
  show ?case by simp
next
  case (Cons c cs)
  show ?case
    using grows_trans[OF grows_all(1)[of s h c] Cons.IH[of "call_cb h c s"]] by simp
qed

lemma grows_publish: "grows s (publish h i s)"
  by (simp add: publish_def grows_fold)

lemma grows_nth: "grows s s' \<Longrightarrow> r < length (heap s) \<Longrightarrow> heap s' ! r = heap s ! r"
  by (auto simp: grows_def nth_append)

lemma grows_length: "grows s s' \<Longrightarrow> length (heap s) \<le> length (heap s')"
  by (auto simp: grows_def)

theorem request_when_loaded:
  assumes "getElementById (ident h L) s = Some el" and "loaded (heap s ! el)"
  shows "load h L (Some c) g s = (el, call_cb h c s) \<and>
         load h L (Some (User k)) g s = (el, s\<lparr>log := log s @ [Called k]\<rparr>) \<and>
         load h L None g s = (el, s)"
  using assms by (simp add: load.simps)

text \<open>C5\<close>

lemma tick_single: "timers s = [t] \<Longrightarrow> tick h s = state_of (run_task h t (s\<lparr>timers := []\<rparr>))"
  by (simp add: tick_def)

theorem release_abandons_callbacks:
  assumes pending: "getElementById (ident h L) s = Some el" "\<not> loaded (heap s ! el)"
      and wired: "handlers (heap s ! el) = Some (Fn el (ident h L) rs)"
      and idle: "timers s = []"
  shows "\<exists>s1. unload h L s = Ok s1 \<and> pubsub s1 (ident h L) = [] \<and> \<not> attached (heap s1 ! el) \<and>
           log s1 = log s \<and> frames s1 = frames s \<and>
           (let s2 = tick h (onload el s1)
            in log s2 = log s1 \<and> frames s2 = frames s1 \<and> pubsub s2 (ident h L) = [])"
proof -
  let ?i = "ident h L"
  let ?s1 = "removeChild el (clear ?i s)"
  from getElementById_Some[OF pending(1)]
  have el: "el < length (heap s)" "attached (heap s ! el)" "el_id (heap s ! el) = ?i"
    by auto
  have u: "unload h L s = Ok ?s1"
    using pending el by (simp add: unload_def Let_def)
  have p1: "pubsub ?s1 ?i = []" and a1: "\<not> attached (heap ?s1 ! el)"
    and l1: "log ?s1 = log s" and f1: "frames ?s1 = frames s"
    and t1: "timers ?s1 = []"
    and h1: "handlers (heap ?s1 ! el) = Some (Fn el ?i rs)" "\<not> loaded (heap ?s1 ! el)"
      "el < length (heap ?s1)"
    using el wired pending idle by (simp_all add: removeChild_def clear_def)
  let ?s1' = "?s1\<lparr>timers := []\<rparr>"
  have on: "onload el ?s1 = ?s1\<lparr>timers := [TFn (Fn el ?i rs)]\<rparr>"
    using h1 t1 by (simp add: onload_def)
  let ?sl = "set_loaded el ?s1'"
  let ?o = "unload' rs ?sl"
  have sh: "shrinks ?sl (state_of ?o)"
    by (rule shrinks_unload') simp
  have pl: "pubsub ?sl ?i = []" "log ?sl = log ?s1" "frames ?sl = frames ?s1"
    using p1 by (simp_all add: set_loaded_def)
  have po: "pubsub (state_of ?o) ?i = []" "log (state_of ?o) = log ?s1" "frames (state_of ?o) = frames ?s1"
    using sh pl unfolding shrinks_def by (metis, simp, simp)
  have tk: "tick h (onload el ?s1) = state_of (load_fn h (Fn el ?i rs) ?s1')"
    by (simp add: on tick_def)
  have nl: "\<not> loaded (heap ?s1' ! el)"
    using h1 by simp
  have "log (state_of (load_fn h (Fn el ?i rs) ?s1')) = log ?s1 \<and>
        frames (state_of (load_fn h (Fn el ?i rs) ?s1')) = frames ?s1 \<and>
        pubsub (state_of (load_fn h (Fn el ?i rs) ?s1')) ?i = []"
  proof (cases ?o)
    case (Ok s2)
    then have "load_fn h (Fn el ?i rs) ?s1' = Ok (clear ?i (publish h ?i s2))"
      using nl by simp
    moreover have "publish h ?i s2 = s2"
      using po(1) Ok by (simp add: publish_def)
    ultimately show ?thesis using po Ok by (simp add: clear_def)
  next
    case (TypeError s2)
    then have "load_fn h (Fn el ?i rs) ?s1' = TypeError s2"
      using nl by simp
    then show ?thesis using po TypeError by simp
  qed
  then show ?thesis
    using u p1 a1 l1 f1 tk by (simp add: Let_def)
qed

section \<open>Supersession\<close>

lemma load_absent:
  assumes "getElementById (ident h L) s = None"
  shows "load h L oc g s =
           load' L (ident h L) (case g of Some n \<Rightarrow> n | None \<Rightarrow> [])
             (if (case g of Some n \<Rightarrow> n | None \<Rightarrow> []) \<noteq> [] then query (case g of Some n \<Rightarrow> n | None \<Rightarrow> []) s else [])
             (case oc of Some c \<Rightarrow> subscribe (ident h L) c s | None \<Rightarrow> s)"
  using assms by (simp add: load.simps Let_def query_def document_def subscribe_def split: option.splits)

lemma query_attached:
  "r \<in> set (query cls s) \<longleftrightarrow> r < length (heap s) \<and> attached (heap s ! r) \<and> className (heap s ! r) = cls"
  by (auto simp: query_def document_attached)

lemma distinct_query: "distinct (query cls s)"
  by (simp add: query_def distinct_document)

lemma shrinks_nth:
  "shrinks s s' \<Longrightarrow> r < length (heap s) \<Longrightarrow> same_but_attached (heap s ! r) (heap s' ! r)"
  by (simp add: shrinks_def)

theorem supersession_after_completion:
  assumes absent: "getElementById (ident h L2) s = None"
      and G: "G \<noteq> []"
      and idle: "timers s = []"
  shows "let (el, s1) = load h L2 oc (Some G) s;
             s2 = onload el s1;
             s3 = tick h s2
         in document s1 = el # document s \<and> document s2 = document s1 \<and>
            attached (heap s3 ! el) \<and>
            (\<forall>r < length (heap s).
               attached (heap s3 ! r) \<longleftrightarrow> attached (heap s ! r) \<and> className (heap s ! r) \<noteq> G)"
proof -
  define i where "i = ident h L2"
  define el where "el = length (heap s)"
  define s0 where "s0 = (case oc of Some c \<Rightarrow> subscribe i c s | None \<Rightarrow> s)"
  define rs where "rs = query G s"
  define fn where "fn = Fn el i rs"
  define e where "e = \<lparr>el_id = i, className = G, src = L2, loaded = False, attached = True,
             handlers = Some fn\<rparr>"
  define s1 where "s1 = s0\<lparr>heap := heap s0 @ [e], log := log s0 @ [Fetch L2]\<rparr>"
  have h0: "heap s0 = heap s" "timers s0 = []"
    using idle by (simp_all add: s0_def subscribe_def split: option.splits)
  have ld: "load h L2 oc (Some G) s = (el, s1)"
    using G h0 unfolding s1_def e_def fn_def rs_def s0_def el_def i_def
    by (simp add: load_absent[OF absent] load'_def Let_def)
  have hp1: "heap s1 = heap s @ [e]" "timers s1 = []"
    using h0 by (simp_all add: s1_def)
  have d1: "document s1 = el # document s"
    using document_append[of s0 e] h0 by (simp add: document_def s1_def e_def el_def)
  define s2 where "s2 = s1\<lparr>timers := [TFn fn]\<rparr>"
  have on: "onload el s1 = s2"
    using hp1 by (simp add: onload_def s2_def el_def e_def)
  have d2: "document s2 = document s1"
    by (simp add: document_def s2_def)
  define sl where "sl = set_loaded el (s2\<lparr>timers := []\<rparr>)"
  have hl: "heap sl = heap s @ [e\<lparr>loaded := True\<rparr>]"
    using hp1 by (simp add: sl_def s2_def set_loaded_def el_def)
  have rs: "\<forall>r\<in>set rs. r < length (heap sl) \<and> attached (heap sl ! r)"
    by (auto simp: rs_def query_attached hl nth_append)
  have "distinct rs"
    by (simp add: rs_def distinct_query)
  from unload'_attached[OF this rs] obtain s' where s':
    "unload' rs sl = Ok s'" "shrinks sl s'"
    "\<forall>r<length (heap sl). attached (heap s' ! r) \<longleftrightarrow> attached (heap sl ! r) \<and> r \<notin> set rs"
    by blast
  define s3 where "s3 = clear i (publish h i s')"
  have nl: "\<not> loaded (heap (s2\<lparr>timers := []\<rparr>) ! el)"
    using hp1 by (simp add: s2_def el_def e_def)
  have tk: "tick h s2 = s3"
    using s'(1) nl unfolding sl_def s3_def
    by (simp add: tick_def s2_def fn_def)
  have len: "length (heap s') = Suc (length (heap s))"
    using s'(2) hl by (simp add: shrinks_def)
  have g: "grows s' (publish h i s')"
    by (rule grows_publish)
  have nth3: "\<And>r. r \<le> length (heap s) \<Longrightarrow> heap s3 ! r = heap s' ! r"
    using grows_nth[OF g] len by (simp add: s3_def)
  have el_rs: "el \<notin> set rs"
    by (simp add: rs_def query_attached el_def)
  have a_el: "attached (heap s3 ! el)"
    using s'(3) nth3[of el] el_rs by (simp add: hl el_def e_def)
  have a_old: "\<forall>r < length (heap s).
               attached (heap s3 ! r) \<longleftrightarrow> attached (heap s ! r) \<and> className (heap s ! r) \<noteq> G"
  proof (intro allI impI)
    fix r assume r: "r < length (heap s)"
    then have "attached (heap s3 ! r) \<longleftrightarrow> attached (heap sl ! r) \<and> r \<notin> set rs"
      using s'(3) nth3[of r] by (simp add: hl)
    also have "\<dots> \<longleftrightarrow> attached (heap s ! r) \<and> className (heap s ! r) \<noteq> G"
      using r by (auto simp: hl nth_append rs_def query_attached)
    finally show "attached (heap s3 ! r) \<longleftrightarrow> attached (heap s ! r) \<and> className (heap s ! r) \<noteq> G" .
  qed
  show ?thesis
    using d1 d2 a_el a_old by (simp add: ld on tk)
qed

section \<open>Completion signals\<close>

lemma deliver_eq:
  assumes "el < length (heap s)" and "handlers (heap s ! el) = Some fn"
  shows "deliver sg el s = (if effective sg then s\<lparr>timers := timers s @ [TFn fn]\<rparr> else s)"
  using assms by (cases sg) (simp_all add: onload_def onreadystatechange_def)

lemma fold_deliver:
  assumes "el < length (heap s)" and "handlers (heap s ! el) = Some fn"
  shows "fold (\<lambda>sg. deliver sg el) sigs s =
           s\<lparr>timers := timers s @ replicate (length (filter effective sigs)) (TFn fn)\<rparr>"
  using assms
proof (induction sigs arbitrary: s)
  case Nil
  show ?case by simp
next
  case (Cons sg sigs)
  show ?case
  proof (cases "effective sg")
    case True
    let ?s = "s\<lparr>timers := timers s @ [TFn fn]\<rparr>"
    have "fold (\<lambda>sg. deliver sg el) sigs ?s =
            ?s\<lparr>timers := timers ?s @ replicate (length (filter effective sigs)) (TFn fn)\<rparr>"
      by (rule Cons.IH) (use Cons.prems in simp_all)
    then show ?thesis
      using True Cons.prems by (simp add: deliver_eq replicate_append_same)
  next
    case False
    then show ?thesis
      using Cons.IH[OF Cons.prems] Cons.prems by (simp add: deliver_eq)
  qed
qed

lemma load_fn_marks:
  assumes "el < length (heap s)"
  shows "loaded (heap (state_of (load_fn h (Fn el i rs) s)) ! el) \<and>
         timers (state_of (load_fn h (Fn el i rs) s)) = timers s \<and>
         el < length (heap (state_of (load_fn h (Fn el i rs) s)))"
proof (cases "loaded (heap s ! el)")
  case True
  then show ?thesis using assms by simp
next
  case False
  let ?sl = "set_loaded el s"
  have sl: "loaded (heap ?sl ! el)" "timers ?sl = timers s" "length (heap ?sl) = length (heap s)"
    using assms by (simp_all add: set_loaded_def)
  have sh: "shrinks ?sl (state_of (unload' rs ?sl))"
    by (rule shrinks_unload') simp
  then have u: "loaded (heap (state_of (unload' rs ?sl)) ! el)"
       "timers (state_of (unload' rs ?sl)) = timers s"
       "length (heap (state_of (unload' rs ?sl))) = length (heap s)"
    using sl assms shrinks_nth[OF sh, of el]
    by (simp_all add: shrinks_def same_but_attached_def)
  show ?thesis
  proof (cases "unload' rs ?sl")
    case (Ok s2)
    have g: "grows s2 (publish h i s2)"
      by (rule grows_publish)
    have "load_fn h (Fn el i rs) s = Ok (clear i (publish h i s2))"
      using False Ok by simp
    moreover have "heap (publish h i s2) ! el = heap s2 ! el"
      using grows_nth[OF g, of el] u Ok assms by simp
    moreover have "timers (publish h i s2) = timers s2" "length (heap s2) \<le> length (heap (publish h i s2))"
      using g grows_length[OF g] by (simp_all add: grows_def)
    ultimately show ?thesis
      using u Ok assms by (simp add: clear_def)
  next
    case (TypeError s2)
    then have "load_fn h (Fn el i rs) s = TypeError s2"
      using False by simp
    then show ?thesis using u TypeError assms by simp
  qed
qed

lemma tick_idle: "timers s = [] \<Longrightarrow> (tick h ^^ m) s = s"
  by (induction m) (simp_all add: tick_def)

lemma tick_loaded:
  assumes "loaded (heap s ! el)" and "timers s = TFn (Fn el i rs) # ts"
  shows "tick h s = s\<lparr>timers := ts\<rparr>"
  using assms by (simp add: tick_def)

lemma ticks_loaded:
  assumes "loaded (heap s ! el)" and "timers s = replicate k (TFn (Fn el i rs))" and "k \<le> m"
  shows "(tick h ^^ m) s = s\<lparr>timers := []\<rparr>"
  using assms
proof (induction k arbitrary: s m)
  case 0
  then have "timers s = []" by simp
  then show ?case using tick_idle[where s=s and h=h and m=m] by simp
next
  case (Suc k)
  then obtain m' where m: "m = Suc m'" "k \<le> m'"
    by (cases m) auto
  have t: "tick h s = s\<lparr>timers := replicate k (TFn (Fn el i rs))\<rparr>"
    using tick_loaded[OF Suc.prems(1), where i=i and rs=rs and ts="replicate k (TFn (Fn el i rs))" and h=h]
      Suc.prems(2) by simp
  have "(tick h ^^ m') (tick h s) = (tick h s)\<lparr>timers := []\<rparr>"
    by (rule Suc.IH) (use t Suc.prems m in simp_all)
  then show ?case
    using t m by (simp add: funpow_swap1)
qed

theorem completion_idempotent:
  assumes "el < length (heap s)" and "handlers (heap s ! el) = Some (Fn el i rs)"
      and "timers s = []"
  shows "let s0 = fold (\<lambda>sg. deliver sg el) sigs s
         in (tick h ^^ length sigs) s0 =
              (if \<exists>sg\<in>set sigs. effective sg then (tick h s0)\<lparr>timers := []\<rparr> else s) \<and>
            ((\<exists>sg\<in>set sigs. effective sg) \<longrightarrow> loaded (heap (tick h s0) ! el))"
proof -
  define n where "n = length (filter effective sigs)"
  define fn where "fn = Fn el i rs"
  define s0 where "s0 = fold (\<lambda>sg. deliver sg el) sigs s"
  have s0: "s0 = s\<lparr>timers := replicate n (TFn fn)\<rparr>"
    using fold_deliver[OF assms(1) assms(2)[folded fn_def], of sigs] assms(3)
    by (simp add: s0_def n_def)
  have n_le: "n \<le> length sigs"
    by (simp add: n_def)
  show ?thesis
  proof (cases "\<exists>sg\<in>set sigs. effective sg")
    case False
    then have "n = 0"
      by (auto simp: n_def filter_empty_conv)
    then have "s0 = s"
      using s0 assms(3) by simp
    then show ?thesis
      using False tick_idle[OF assms(3)] by (simp add: s0_def[symmetric])
  next
    case True
    then have "n \<noteq> 0"
      by (auto simp: n_def filter_empty_conv)
    then obtain k where k: "n = Suc k"
      by (cases n) auto
    then obtain m where m: "length sigs = Suc m" "k \<le> m"
      using n_le by (cases "length sigs") auto
    define s1 where "s1 = s\<lparr>timers := replicate k (TFn fn)\<rparr>"
    have t: "tick h s0 = state_of (load_fn h (Fn el i rs) s1)"
      by (simp add: s0 k tick_def s1_def fn_def)
    have "el < length (heap s1)"
      using assms(1) by (simp add: s1_def)
    from load_fn_marks[OF this, of h i rs]
    have mk: "loaded (heap (tick h s0) ! el)" "timers (tick h s0) = replicate k (TFn (Fn el i rs))"
      by (simp_all add: t s1_def fn_def)
    have "(tick h ^^ m) (tick h s0) = (tick h s0)\<lparr>timers := []\<rparr>"
      by (rule ticks_loaded[OF mk m(2)])
    then have "(tick h ^^ length sigs) s0 = (tick h s0)\<lparr>timers := []\<rparr>"
      by (simp add: m funpow_swap1)
    then show ?thesis
      using True mk by (simp add: s0_def[symmetric])
  qed
qed

section \<open>Priming the cache\<close>

lemma getElementById_heap: "heap s' = heap s \<Longrightarrow> getElementById i s' = getElementById i s"
  by (simp add: getElementById_def document_def)

lemma prefetch_tick:
  assumes "timers s = []"
  shows "heap (tick h (prefetch h L s)) = heap s \<and>
         timers (tick h (prefetch h L s)) = [] \<and>
         fetches u (tick h (prefetch h L s)) = fetches u s \<and>
         (getElementById (ident h L) s = None \<longrightarrow>
            (\<exists>ids. iframe (tick h (prefetch h L s)) = Some ids \<and> ident h L \<in> set ids))"
  using assms
  by (auto simp: prefetch_def prefetch'_def tick_def fetches_def Let_def
           split: option.splits)

theorem prime_idempotent:
  "((getElementById (ident h L) s \<noteq> None \<or>
     (\<exists>ids. iframe s = Some ids \<and> ident h L \<in> set ids)) \<longrightarrow> prefetch h L s = s) \<and>
   (timers s = [] \<longrightarrow> (let s2 = tick h (prefetch h L s) in prefetch h L s2 = s2))"
proof (intro conjI impI)
  assume "getElementById (ident h L) s \<noteq> None \<or>
     (\<exists>ids. iframe s = Some ids \<and> ident h L \<in> set ids)"
  then show "prefetch h L s = s"
    by (auto simp: prefetch_def Let_def split: option.splits)
next
  assume idle: "timers s = []"
  define s2 where "s2 = tick h (prefetch h L s)"
  from prefetch_tick[OF idle, of h L]
  have hp: "heap s2 = heap s"
    and fr: "getElementById (ident h L) s = None \<longrightarrow>
            (\<exists>ids. iframe s2 = Some ids \<and> ident h L \<in> set ids)"
    by (simp_all add: s2_def)
  have "prefetch h L s2 = s2"
    using fr getElementById_heap[OF hp, of "ident h L"]
    by (auto simp: prefetch_def Let_def split: option.splits)
  then show "let s2 = tick h (prefetch h L s) in prefetch h L s2 = s2"
    by (simp add: s2_def)
qed

theorem prime_then_request:
  assumes "timers s = []"
  shows "let s2 = tick h (prefetch h L s);
             (el, s3) = load h L (map_option User ko) g s2
         in heap s2 = heap s \<and> fetches L s2 = fetches L s \<and>
            fetches L s3 =
              fetches L s + (if getElementById (ident h L) s = None then 1 else 0)"
proof -
  define s2 where "s2 = tick h (prefetch h L s)"
  from prefetch_tick[OF assms, of h L L]
  have hp: "heap s2 = heap s" and f2: "fetches L s2 = fetches L s"
    by (simp_all add: s2_def)
  have g: "getElementById (ident h L) s2 = getElementById (ident h L) s"
    by (rule getElementById_heap[OF hp])
  have "fetches L (snd (load h L (map_option User ko) g s2)) =
          fetches L s2 + (if getElementById (ident h L) s2 = None then 1 else 0)"
    by (cases ko)
       (auto simp: load.simps Let_def fetches_def load'_def subscribe_def
             split: option.splits)
  then show ?thesis
    using hp f2 g by (simp add: s2_def[symmetric] split_beta)
qed

end
